theory Spec2Isabelle
  imports Complex_Main
begin

section \<open>Python values and floats\<close>

text \<open>
  The sensor values of \<^verbatim>\<open>integrated_main.py\<close> and \<^verbatim>\<open>integrated_runonce.py\<close>
  are Python floats held in pandas columns. A float is modelled as an exact real
  number or one of the three special values; rounding is not modelled. The code
  only ever compares sensor values with the (finite) thresholds, so the three
  comparisons below are all the float operations the engine needs. Every
  comparison with \<open>NaN\<close> is false, as in IEEE 754.
\<close>

datatype pyfloat = Fin real | PosInf | NegInf | NaN

fun f_gt :: "pyfloat \<Rightarrow> real \<Rightarrow> bool" where
  "f_gt (Fin x) t = (x > t)"
| "f_gt PosInf t = True"
| "f_gt NegInf t = False"
| "f_gt NaN t = False"

fun f_lt :: "pyfloat \<Rightarrow> real \<Rightarrow> bool" where
  "f_lt (Fin x) t = (x < t)"
| "f_lt PosInf t = False"
| "f_lt NegInf t = True"
| "f_lt NaN t = False"

fun f_le :: "pyfloat \<Rightarrow> real \<Rightarrow> bool" where
  "f_le (Fin x) t = (x \<le> t)"
| "f_le PosInf t = False"
| "f_le NegInf t = True"
| "f_le NaN t = False"

text \<open>
  The values a decoded JSON payload is made of. A dict is an association list
  whose keys are distinct (as \<^verbatim>\<open>json.loads\<close> and psycopg deliver it); a key is
  looked up with \<open>map_of\<close>.
\<close>

datatype pyval =
    PNone
  | PBool bool
  | PInt int
  | PFloat pyfloat
  | PStr string
  | PList "pyval list"
  | PDict "(string \<times> pyval) list"

text \<open>
  The raw \<^verbatim>\<open>sensor_readings\<close> cell of one row. When it is a \<^verbatim>\<open>str\<close> the code
  calls \<^verbatim>\<open>json.loads\<close> on it; the text is represented by what \<^verbatim>\<open>json.loads\<close>
  makes of it: \<open>Text None\<close> is a text that \<^verbatim>\<open>json.loads\<close> rejects with
  \<^verbatim>\<open>JSONDecodeError\<close>, \<open>Text (Some v)\<close> a text that decodes to \<open>v\<close>. \<open>Obj v\<close> is
  a cell that is not a \<^verbatim>\<open>str\<close> (an already decoded JSON column, or \<open>PNone\<close> for
  SQL NULL), so \<open>v\<close> is not a \<open>PStr\<close> there.
\<close>

datatype payload = Text "pyval option" | Obj pyval

datatype error =
    TypeError | ValueError | KeyError | AttributeError | JSONDecodeError | OverflowError

subsection \<open>The builtin \<^verbatim>\<open>float()\<close>\<close>

text \<open>
  \<^verbatim>\<open>float(s)\<close> on a string: surrounding whitespace is stripped; then an optional
  sign, and either \<^verbatim>\<open>inf\<close>, \<^verbatim>\<open>infinity\<close>, \<^verbatim>\<open>nan\<close> (in any case) or a decimal
  numeral with optional fraction and exponent, where single underscores may
  separate digits. Anything else is a \<^verbatim>\<open>ValueError\<close> (here \<open>None\<close>).
\<close>

definition is_space :: "char \<Rightarrow> bool" where
  "is_space c = (of_char c \<in> {9, 10, 11, 12, 13, 32 :: nat})"

definition is_digit :: "char \<Rightarrow> bool" where
  "is_digit c = (48 \<le> (of_char c :: nat) \<and> (of_char c :: nat) \<le> 57)"

definition digit_val :: "char \<Rightarrow> nat" where
  "digit_val c = of_char c - 48"

definition lower :: "char \<Rightarrow> char" where
  "lower c = (if 65 \<le> (of_char c :: nat) \<and> (of_char c :: nat) \<le> 90
              then char_of (of_char c + 32 :: nat) else c)"

definition strip :: "string \<Rightarrow> string" where
  "strip s = rev (dropWhile is_space (rev (dropWhile is_space s)))"

text \<open>The digits that follow a first digit: \<open>(digit | _ digit)*\<close>, and the rest.\<close>

fun more_digits :: "string \<Rightarrow> string \<times> string" where
  "more_digits [] = ([], [])"
| "more_digits [c] = (if is_digit c then ([c], []) else ([], [c]))"
| "more_digits (c # d # cs) =
     (if is_digit c then (case more_digits (d # cs) of (ds, r) \<Rightarrow> (c # ds, r))
      else if c = CHR ''_'' \<and> is_digit d
        then (case more_digits cs of (ds, r) \<Rightarrow> (d # ds, r))
      else ([], c # d # cs))"

text \<open>A digit part: at least one digit. Returns its digits and the rest.\<close>

definition digitpart :: "string \<Rightarrow> string \<times> string" where
  "digitpart s = (case s of [] \<Rightarrow> ([], [])
                  | c # cs \<Rightarrow> if is_digit c then more_digits s else ([], s))"

definition digits_value :: "string \<Rightarrow> nat" where
  "digits_value ds = foldl (\<lambda>n c. 10 * n + digit_val c) 0 ds"

definition split_sign :: "string \<Rightarrow> bool \<times> string" where
  "split_sign s = (case s of [] \<Rightarrow> (False, [])
                   | c # cs \<Rightarrow> if c = CHR ''-'' then (True, cs)
                              else if c = CHR ''+'' then (False, cs) else (False, s))"

text \<open>The optional exponent: its value and the rest; no digits, no exponent.\<close>

definition exponent :: "string \<Rightarrow> int \<times> string" where
  "exponent s = (case s of [] \<Rightarrow> (0, [])
     | c # cs \<Rightarrow>
         if lower c = CHR ''e'' then
           (case split_sign cs of (neg, r) \<Rightarrow>
              (case digitpart r of (ds, r') \<Rightarrow>
                 if ds = [] then (0, s)
                 else ((if neg then - int (digits_value ds) else int (digits_value ds)), r')))
         else (0, s))"

definition scale10 :: "nat \<Rightarrow> int \<Rightarrow> real" where
  "scale10 m e = (if 0 \<le> e then real m * 10 ^ nat e else real m / 10 ^ nat (- e))"

text \<open>The optional fraction: a point and the digits after it (possibly none).\<close>

definition fraction :: "string \<Rightarrow> string \<times> string" where
  "fraction s = (case s of [] \<Rightarrow> ([], [])
                 | c # cs \<Rightarrow> if c = CHR ''.'' then digitpart cs else ([], s))"

definition unsigned_float :: "string \<Rightarrow> pyfloat option" where
  "unsigned_float s =
     (if map lower s = ''inf'' \<or> map lower s = ''infinity'' then Some PosInf
      else if map lower s = ''nan'' then Some NaN
      else (case digitpart s of (ip, r1) \<Rightarrow>
        (case fraction r1 of (fp, r2) \<Rightarrow>
           if ip = [] \<and> fp = [] then None
           else (case exponent r2 of (e, r3) \<Rightarrow>
             if r3 = [] then Some (Fin (scale10 (digits_value (ip @ fp)) (e - int (length fp))))
             else None))))"

definition float_of_str :: "string \<Rightarrow> pyfloat option" where
  "float_of_str s =
     (case split_sign (strip s) of (neg, r) \<Rightarrow>
        (case unsigned_float r of None \<Rightarrow> None
         | Some (Fin x) \<Rightarrow> Some (Fin (if neg then - x else x))
         | Some PosInf \<Rightarrow> Some (if neg then NegInf else PosInf)
         | Some v \<Rightarrow> Some v))"

text \<open>
  \<^verbatim>\<open>float(value)\<close>: a number converts (an \<^verbatim>\<open>int\<close> beyond the range of a double
  raises \<^verbatim>\<open>OverflowError\<close>), a string is parsed or raises \<^verbatim>\<open>ValueError\<close>,
  \<^verbatim>\<open>None\<close>, a list and a dict raise \<^verbatim>\<open>TypeError\<close>.
\<close>

fun py_float :: "pyval \<Rightarrow> error + pyfloat" where
  "py_float PNone = Inl TypeError"
| "py_float (PBool b) = Inr (Fin (if b then 1 else 0))"
| "py_float (PInt i) =
     (if \<bar>i\<bar> \<ge> 2 ^ 1024 - 2 ^ 970 then Inl OverflowError else Inr (Fin (of_int i)))"
| "py_float (PFloat f) = Inr f"
| "py_float (PStr s) = (case float_of_str s of None \<Rightarrow> Inl ValueError | Some f \<Rightarrow> Inr f)"
| "py_float (PList xs) = Inl TypeError"
| "py_float (PDict d) = Inl TypeError"

section \<open>\<^verbatim>\<open>extract_sensor_value\<close> (both files, identical text)\<close>

text \<open>\<^verbatim>\<open>reading[key]\<close>: only a dict can be subscripted with a string.\<close>

fun subscript :: "pyval \<Rightarrow> string \<Rightarrow> error + pyval" where
  "subscript (PDict d) k = (case map_of d k of None \<Rightarrow> Inl KeyError | Some v \<Rightarrow> Inr v)"
| "subscript _ k = Inl TypeError"

text \<open>
  The items \<^verbatim>\<open>for reading in readings\<close> visits: the elements of a list, the keys
  of a dict, the characters of a string; anything else is not iterable.
\<close>

fun py_iter :: "pyval \<Rightarrow> error + pyval list" where
  "py_iter (PList xs) = Inr xs"
| "py_iter (PDict d) = Inr (map (\<lambda>kv. PStr (fst kv)) d)"
| "py_iter (PStr s) = Inr (map (\<lambda>c. PStr [c]) s)"
| "py_iter _ = Inl TypeError"

text \<open>
  The \<^verbatim>\<open>for\<close> loop with its inner \<^verbatim>\<open>try\<close>: the first entry whose
  \<^verbatim>\<open>sensor_type\<close> equals the wanted one decides the result; \<^verbatim>\<open>ValueError\<close> and
  \<^verbatim>\<open>TypeError\<close> of \<^verbatim>\<open>float(value)\<close> are caught there and give \<^verbatim>\<open>None\<close>.
\<close>

fun scan_readings :: "string \<Rightarrow> pyval list \<Rightarrow> error + pyfloat option" where
  "scan_readings sensor_type [] = Inr None"
| "scan_readings sensor_type (reading # rest) =
     (case subscript reading ''sensor_type'' of
        Inl e \<Rightarrow> Inl e
      | Inr t \<Rightarrow>
          if t = PStr sensor_type then
            (case subscript reading ''value'' of
               Inl e \<Rightarrow> Inl e
             | Inr v \<Rightarrow>
                 (case py_float v of
                    Inr f \<Rightarrow> Inr (Some f)
                  | Inl e \<Rightarrow> if e = ValueError \<or> e = TypeError then Inr None else Inl e))
          else scan_readings sensor_type rest)"

definition load_readings :: "payload \<Rightarrow> error + pyval" where
  "load_readings sensor_readings =
     (case sensor_readings of
        Text None \<Rightarrow> Inl JSONDecodeError
      | Text (Some v) \<Rightarrow> Inr v
      | Obj v \<Rightarrow> Inr v)"

text \<open>
  The whole function. The outer \<^verbatim>\<open>except\<close> catches \<^verbatim>\<open>JSONDecodeError\<close>,
  \<^verbatim>\<open>AttributeError\<close> and \<^verbatim>\<open>KeyError\<close>; any other exception leaves the function.
\<close>

definition extract_sensor_value :: "payload \<Rightarrow> string \<Rightarrow> error + pyfloat option" where
  "extract_sensor_value sensor_readings sensor_type =
     (case (case load_readings sensor_readings of
              Inl e \<Rightarrow> Inl e
            | Inr readings \<Rightarrow>
                (case py_iter readings of
                   Inl e \<Rightarrow> Inl e
                 | Inr items \<Rightarrow> scan_readings sensor_type items)) of
        Inl e \<Rightarrow> if e = JSONDecodeError \<or> e = AttributeError \<or> e = KeyError
                 then Inr None else Inl e
      | Inr r \<Rightarrow> Inr r)"

section \<open>The data frame\<close>

text \<open>
  One input row: the raw payload and the \<^verbatim>\<open>time\<close> cell after
  \<^verbatim>\<open>pd.to_datetime(..., errors='coerce').dt.tz_localize(None)\<close>, in seconds since
  the epoch; \<open>None\<close> is \<^verbatim>\<open>NaT\<close>.
\<close>

record row =
  sensor_readings :: payload
  rtime :: "real option"

text \<open>The keyword parameters of \<^verbatim>\<open>process_vibration_data\<close>.\<close>

record config =
  positive_threshold :: real
  negative_threshold :: real
  window_size :: int
  max_vibration :: real
  consecutive_off_count :: int

text \<open>
  A row of the processed frame, reduced to the columns the engine reads:
  \<^verbatim>\<open>time\<close>, the sensor column and \<^verbatim>\<open>ON\<close>. In the frame the time is a
  \<open>real option\<close>, in a day's group a \<open>real\<close>.
\<close>

record ('t, 'v) reading =
  time :: 't
  "value" :: 'v
  ON :: bool

text \<open>The seven extracted channels; \<^verbatim>\<open>sensor_column\<close> is one of them.\<close>

datatype channel = SX | SY | SZ | T1 | T2 | IRT | S

fun channel_name :: "channel \<Rightarrow> string" where
  "channel_name SX = ''sX''"
| "channel_name SY = ''sY''"
| "channel_name SZ = ''sZ''"
| "channel_name T1 = ''t1''"
| "channel_name T2 = ''t2''"
| "channel_name IRT = ''IRT''"
| "channel_name S = ''s''"

definition sensors :: "channel list" where
  "sensors = [SX, SY, SZ, T1, T2, IRT, S]"

definition vibration_columns :: "channel list" where
  "vibration_columns = [SX, SY, SZ]"

text \<open>The first exception of a sequence of calls leaves the function.\<close>

fun sequence :: "(error + 'a) list \<Rightarrow> error + 'a list" where
  "sequence [] = Inr []"
| "sequence (x # xs) =
     (case x of Inl e \<Rightarrow> Inl e
      | Inr v \<Rightarrow> (case sequence xs of Inl e \<Rightarrow> Inl e | Inr vs \<Rightarrow> Inr (v # vs)))"

text \<open>\<^verbatim>\<open>data["sensor_readings"].apply(lambda x: extract_sensor_value(x, sensor))\<close>\<close>

definition apply_extract :: "row list \<Rightarrow> channel \<Rightarrow> error + pyfloat option list" where
  "apply_extract data sensor =
     sequence (map (\<lambda>r. extract_sensor_value (sensor_readings r) (channel_name sensor)) data)"

text \<open>The loop over the seven sensors; the result is the column asked for.\<close>

definition extract_columns :: "row list \<Rightarrow> channel \<Rightarrow> error + pyfloat option list" where
  "extract_columns data sensor_column =
     (case sequence (map (apply_extract data) sensors) of
        Inl e \<Rightarrow> Inl e
      | Inr cols \<Rightarrow> apply_extract data sensor_column)"

text \<open>\<^verbatim>\<open>fillna(0)\<close> (main only): \<^verbatim>\<open>None\<close> and \<^verbatim>\<open>NaN\<close> become 0.\<close>

definition fillna0 :: "pyfloat option \<Rightarrow> pyfloat" where
  "fillna0 c = (case c of None \<Rightarrow> Fin 0 | Some NaN \<Rightarrow> Fin 0 | Some v \<Rightarrow> v)"

text \<open>The cleaning of the vibration columns: a value above 7 or below -7 becomes 0.\<close>

definition clean :: "channel \<Rightarrow> pyfloat \<Rightarrow> pyfloat" where
  "clean col v = (if col \<in> set vibration_columns \<and> (f_gt v 7 \<or> f_lt v (- 7)) then Fin 0 else v)"

text \<open>\<^verbatim>\<open>data['ON'] = (data[col] > positive_threshold) | (data[col] < negative_threshold)\<close>\<close>

definition classify :: "config \<Rightarrow> pyfloat \<Rightarrow> bool" where
  "classify cfg v = (f_gt v (positive_threshold cfg) \<or> f_lt v (negative_threshold cfg))"

text \<open>
  \<^verbatim>\<open>data['date'] = data['time'].dt.date\<close> and \<^verbatim>\<open>data.groupby('date')\<close>: the
  calendar day of a time is its day number; rows whose date is \<^verbatim>\<open>NaT\<close> belong to
  no group; the groups come in ascending order of date, each with its rows in
  frame order.
\<close>

definition date_of :: "real \<Rightarrow> int" where
  "date_of t = \<lfloor>t / 86400\<rfloor>"

definition timed_rows :: "(real option, 'v) reading list \<Rightarrow> (real, 'v) reading list" where
  "timed_rows data =
     concat (map (\<lambda>r. case time r of None \<Rightarrow> []
                       | Some t \<Rightarrow> [\<lparr>time = t, value = value r, ON = ON r\<rparr>]) data)"

definition groupby_date ::
  "(real option, 'v) reading list \<Rightarrow> (int \<times> (real, 'v) reading list) list" where
  "groupby_date data =
     (let rows = timed_rows data;
          dates = sort (remdups (map (\<lambda>r. date_of (time r)) rows))
      in map (\<lambda>d. (d, filter (\<lambda>r. date_of (time r) = d) rows)) dates)"

text \<open>
  \<^verbatim>\<open>group.sort_values('time').reset_index(drop=True)\<close>. Rows with equal times
  keep their order here; the theorems about one day hold for every order of
  such rows, since they assume only that the group is sorted by time.
\<close>

definition sort_values_time :: "(real, 'v) reading list \<Rightarrow> (real, 'v) reading list" where
  "sort_values_time grp = sort_key time grp"

section \<open>Part 1: total ON time of one day (both files, identical text)\<close>

text \<open>\<^verbatim>\<open>pd.Timedelta(minutes=window_size).total_seconds()\<close>\<close>

definition window_delta :: "config \<Rightarrow> real" where
  "window_delta cfg = 60 * real_of_int (window_size cfg)"

text \<open>
  \<^verbatim>\<open>group[(group['time'] >= current_time) & (group['time'] < window_end_time)]\<close>:
  the rows of the whole group whose time lies in the half-open window.
\<close>

definition window_data ::
  "(real, 'v) reading list \<Rightarrow> real \<Rightarrow> real \<Rightarrow> (real, 'v) reading list" where
  "window_data grp current_time window_end_time =
     filter (\<lambda>r. time r \<ge> current_time \<and> time r < window_end_time) grp"

text \<open>
  The body of \<^verbatim>\<open>while i < len(group)\<close>, on the state \<open>(i, total_on_seconds)\<close>.
\<close>

definition on_time_step ::
  "real \<Rightarrow> (real, 'v) reading list \<Rightarrow> nat \<times> real \<Rightarrow> nat \<times> real" where
  "on_time_step wdelta grp st =
     (case st of (i, total_on_seconds) \<Rightarrow>
        if ON (grp ! i) then
          (let current_time = time (grp ! i);
               window_end_time = current_time + wdelta;
               wd = window_data grp current_time window_end_time;
               times = map time wd
           in (i + length wd,
               if length wd > 1
               then total_on_seconds + min (Max (set times) - Min (set times)) wdelta
               else total_on_seconds))
        else (i + 1, total_on_seconds))"

text \<open>
  The loop. It need not end: when the window of an ON row is empty the index
  does not move. \<open>None\<close> is a loop that never returns.
\<close>

partial_function (option) on_time_loop ::
  "real \<Rightarrow> (real, 'v) reading list \<Rightarrow> nat \<times> real \<Rightarrow> real option" where
  "on_time_loop wdelta grp st =
     (if fst st < length grp then on_time_loop wdelta grp (on_time_step wdelta grp st)
      else Some (snd st))"

declare on_time_loop.simps [code]

definition total_on_time :: "config \<Rightarrow> (real, 'v) reading list \<Rightarrow> real option" where
  "total_on_time cfg grp = on_time_loop (window_delta cfg) grp (0, 0)"

section \<open>Part 2: counting cycles\<close>

text \<open>
  The three loops have the same text in both files except for the two tests on
  a cell; they are defined once, over the test \<open>valid\<close> that starts and continues
  a cycle and the test \<open>off\<close> that counts towards the OFF confirmation.
\<close>

text \<open>The tests of \<^verbatim>\<open>integrated_main.py\<close> (lines 201-203 and 220-222).\<close>

definition valid_on :: "config \<Rightarrow> pyfloat option \<Rightarrow> bool" where
  "valid_on cfg c =
     (case c of None \<Rightarrow> False
      | Some v \<Rightarrow> f_gt v (positive_threshold cfg) \<and> f_le v (max_vibration cfg))"

definition off_reading :: "config \<Rightarrow> pyfloat option \<Rightarrow> bool" where
  "off_reading cfg c =
     (case c of None \<Rightarrow> True
      | Some v \<Rightarrow> f_le v (positive_threshold cfg) \<or> f_gt v (max_vibration cfg))"

text \<open>
  The tests of \<^verbatim>\<open>integrated_runonce.py\<close> (lines 153 and 165), on a cell of a
  float column.
\<close>

definition runonce_valid_on :: "config \<Rightarrow> pyfloat \<Rightarrow> bool" where
  "runonce_valid_on cfg v = (f_gt v (positive_threshold cfg) \<and> f_le v (max_vibration cfg))"

definition runonce_off_reading :: "config \<Rightarrow> pyfloat \<Rightarrow> bool" where
  "runonce_off_reading cfg v = (f_le v (positive_threshold cfg) \<or> f_gt v (max_vibration cfg))"

text \<open>Slide forward while the readings are valid ON readings.\<close>

function slide :: "('v \<Rightarrow> bool) \<Rightarrow> (real, 'v) reading list \<Rightarrow> nat \<Rightarrow> nat" where
  "slide valid grp j =
     (if j < length grp \<and> valid (value (grp ! j)) then slide valid grp (j + 1) else j)"
  by pat_completeness auto
termination
  by (relation "measure (\<lambda>(valid, grp, j). length grp - j)") auto

declare slide.simps [simp del]

text \<open>The update of \<^verbatim>\<open>off_counter\<close> by one reading.\<close>

definition off_counter_update :: "('v \<Rightarrow> bool) \<Rightarrow> 'v \<Rightarrow> int \<Rightarrow> int" where
  "off_counter_update off c off_counter = (if off c then off_counter + 1 else 0)"

text \<open>
  The OFF confirmation loop: it stops at the reading that completes
  \<^verbatim>\<open>consecutive_off_count\<close> consecutive OFF readings, or at the end of the day.
\<close>

function off_confirm ::
  "('v \<Rightarrow> bool) \<Rightarrow> int \<Rightarrow> (real, 'v) reading list \<Rightarrow> nat \<Rightarrow> int \<Rightarrow> nat" where
  "off_confirm off n grp j off_counter =
     (if j < length grp then
        (let off_counter' = off_counter_update off (value (grp ! j)) off_counter
         in if off_counter' \<ge> n then j else off_confirm off n grp (j + 1) off_counter')
      else j)"
  by pat_completeness auto
termination
  by (relation "measure (\<lambda>(off, n, grp, j, c). length grp - j)") auto

declare off_confirm.simps [simp del]

text \<open>The body of \<^verbatim>\<open>while j < len(group)\<close>, on the state \<open>(j, cycle_count)\<close>.\<close>

definition cycle_step ::
  "('v \<Rightarrow> bool) \<Rightarrow> ('v \<Rightarrow> bool) \<Rightarrow> int \<Rightarrow> (real, 'v) reading list \<Rightarrow> nat \<times> nat \<Rightarrow> nat \<times> nat"
  where
  "cycle_step valid off n grp st =
     (case st of (j, cycle_count) \<Rightarrow>
        if valid (value (grp ! j))
        then (off_confirm off n grp (slide valid grp j) 0, cycle_count + 1)
        else (j + 1, cycle_count))"

lemma slide_ge: "j \<le> slide valid grp j"
proof (induction valid grp j rule: slide.induct)
  case (1 valid grp j)
  show ?case
  proof (cases "j < length grp \<and> valid (value (grp ! j))")
    case True
    with "1" have "j + 1 \<le> slide valid grp (j + 1)" by simp
    with True show ?thesis by (subst slide.simps) simp
  next
    case False
    then show ?thesis by (subst slide.simps) auto
  qed
qed

lemma slide_gt: "j < length grp \<Longrightarrow> valid (value (grp ! j)) \<Longrightarrow> j < slide valid grp j"
  using slide_ge [of "j + 1" valid grp] by (subst slide.simps) simp

lemma off_confirm_ge: "j \<le> off_confirm off n grp j c"
proof (induction off n grp j c rule: off_confirm.induct)
  case (1 off n grp j c)
  show ?case
  proof (cases "j < length grp \<and> \<not> n \<le> off_counter_update off (value (grp ! j)) c")
    case True
    with "1" have "j + 1 \<le> off_confirm off n grp (j + 1) (off_counter_update off (value (grp ! j)) c)"
      by simp
    with True show ?thesis by (subst off_confirm.simps) (simp add: Let_def)
  next
    case False
    then show ?thesis by (subst off_confirm.simps) (auto simp: Let_def)
  qed
qed

lemma cycle_step_advances: "j < length grp \<Longrightarrow> j < fst (cycle_step valid off n grp (j, c))"
  using slide_gt [of j grp valid] off_confirm_ge [of "slide valid grp j" off n grp 0]
  by (auto simp: cycle_step_def)

function count_cycles ::
  "('v \<Rightarrow> bool) \<Rightarrow> ('v \<Rightarrow> bool) \<Rightarrow> int \<Rightarrow> (real, 'v) reading list \<Rightarrow> nat \<times> nat \<Rightarrow> nat" where
  "count_cycles valid off n grp st =
     (if fst st < length grp then count_cycles valid off n grp (cycle_step valid off n grp st)
      else snd st)"
  by pat_completeness auto
termination
proof (relation "measure (\<lambda>(valid, off, n, grp, st). length grp - fst st)")
  show "wf (measure (\<lambda>(valid, off, n, grp, st). length grp - fst st))" by simp
next
  fix valid off :: "'v \<Rightarrow> bool" and n :: int and grp :: "(real, 'v) reading list"
    and st :: "nat \<times> nat"
  assume "fst st < length grp"
  then have "fst st < fst (cycle_step valid off n grp st)"
    using cycle_step_advances [of "fst st" grp valid off n "snd st"] by simp
  with \<open>fst st < length grp\<close>
  show "((valid, off, n, grp, cycle_step valid off n grp st), (valid, off, n, grp, st))
        \<in> measure (\<lambda>(valid, off, n, grp, st). length grp - fst st)"
    by simp
qed

declare count_cycles.simps [simp del]

section \<open>The per-day results and the two engines\<close>

text \<open>
  One entry of \<^verbatim>\<open>results\<close>. \<open>total_off_seconds\<close> is the local variable of that
  name (main line 190, runonce line 143), kept here beside the stored keys; the
  stored \<^verbatim>\<open>off_hours\<close> and \<^verbatim>\<open>off_minutes\<close> are computed from it.
\<close>

record day_result =
  date :: int
  on_hours :: int
  on_minutes :: int
  off_hours :: int
  off_minutes :: int
  total_on_seconds :: real
  total_off_seconds :: real
  cycle_count :: nat

text \<open>\<^verbatim>\<open>divmod(int(x // 60), 60)\<close>\<close>

definition hours_minutes :: "real \<Rightarrow> int \<times> int" where
  "hours_minutes x = (\<lfloor>x / 60\<rfloor> div 60, \<lfloor>x / 60\<rfloor> mod 60)"

definition total_seconds_in_day :: real where
  "total_seconds_in_day = 24 * 3600"

text \<open>
  The body of \<^verbatim>\<open>for date, group in data.groupby('date')\<close>; \<open>None\<close> when the
  ON-time loop of that day never returns.
\<close>

definition process_day ::
  "('v \<Rightarrow> bool) \<Rightarrow> ('v \<Rightarrow> bool) \<Rightarrow> config \<Rightarrow> int \<times> (real, 'v) reading list
   \<Rightarrow> day_result option" where
  "process_day valid off cfg dg =
     (case dg of (d, unsorted) \<Rightarrow>
        (let grp = sort_values_time unsorted in
         case total_on_time cfg grp of
           None \<Rightarrow> None
         | Some on_secs \<Rightarrow>
             (let off_secs = total_seconds_in_day - on_secs;
                  on_hm = hours_minutes on_secs;
                  off_hm = hours_minutes off_secs;
                  cycles = count_cycles valid off (consecutive_off_count cfg) grp (0, 0)
              in Some \<lparr>date = d, on_hours = fst on_hm, on_minutes = snd on_hm,
                        off_hours = fst off_hm, off_minutes = snd off_hm,
                        total_on_seconds = on_secs, total_off_seconds = off_secs,
                        cycle_count = cycles\<rparr>)))"

text \<open>The days in order; a day that never returns stops everything after it.\<close>

fun process_groups ::
  "('v \<Rightarrow> bool) \<Rightarrow> ('v \<Rightarrow> bool) \<Rightarrow> config \<Rightarrow> (int \<times> (real, 'v) reading list) list
   \<Rightarrow> day_result list option" where
  "process_groups valid off cfg [] = Some []"
| "process_groups valid off cfg (dg # rest) =
     (case process_day valid off cfg dg of
        None \<Rightarrow> None
      | Some r \<Rightarrow>
          (case process_groups valid off cfg rest of
             None \<Rightarrow> None
           | Some rs \<Rightarrow> Some (r # rs)))"

text \<open>
  \<^verbatim>\<open>process_vibration_data\<close> of \<^verbatim>\<open>integrated_main.py\<close>. The result is \<open>None\<close>
  when the call never returns, \<open>Some (Inl e)\<close> when it raises \<open>e\<close>, and
  \<open>Some (Inr results)\<close> otherwise. After \<^verbatim>\<open>fillna(0)\<close> every cell of the sensor
  column is a number, so the cells the cycle counter reads are \<open>Some v\<close>.
\<close>

definition main_frame ::
  "row list \<Rightarrow> channel \<Rightarrow> config \<Rightarrow> pyfloat option list
   \<Rightarrow> (real option, pyfloat option) reading list" where
  "main_frame data sensor_column cfg col =
     map (\<lambda>(r, c). let v = clean sensor_column (fillna0 c)
                    in \<lparr>time = rtime r, value = Some v, ON = classify cfg v\<rparr>) (zip data col)"

definition process_vibration_data ::
  "row list \<Rightarrow> channel \<Rightarrow> config \<Rightarrow> (error + day_result list) option" where
  "process_vibration_data data sensor_column cfg =
     (case extract_columns data sensor_column of
        Inl e \<Rightarrow> Some (Inl e)
      | Inr col \<Rightarrow>
          map_option Inr
            (process_groups (valid_on cfg) (off_reading cfg) cfg
               (groupby_date (main_frame data sensor_column cfg col))))"

text \<open>
  \<^verbatim>\<open>process_vibration_data\<close> of \<^verbatim>\<open>integrated_runonce.py\<close>, which always reads
  \<^verbatim>\<open>sZ\<close> and has no \<^verbatim>\<open>fillna\<close>. What \<^verbatim>\<open>Series.apply\<close> returns depends on the
  extracted values: when they are all \<^verbatim>\<open>None\<close> the column keeps the objects
  \<^verbatim>\<open>None\<close>; otherwise it is a float column in which each \<^verbatim>\<open>None\<close> is \<open>NaN\<close>.
  The comparisons of a whole column treat \<^verbatim>\<open>None\<close> as false, so in a column of
  \<^verbatim>\<open>None\<close> no row is cleaned and no row is ON; the first test of the cycle
  counter, \<^verbatim>\<open>group.loc[j, 'sZ'] > positive_threshold\<close>, then compares \<^verbatim>\<open>None\<close>
  with a float and raises \<^verbatim>\<open>TypeError\<close> in the first day.
\<close>

definition to_float64 :: "pyfloat option \<Rightarrow> pyfloat" where
  "to_float64 c = (case c of None \<Rightarrow> NaN | Some v \<Rightarrow> v)"

definition runonce_frame ::
  "row list \<Rightarrow> config \<Rightarrow> pyfloat option list \<Rightarrow> (real option, pyfloat) reading list" where
  "runonce_frame data cfg col =
     map (\<lambda>(r, c). let v = clean SZ (to_float64 c)
                    in \<lparr>time = rtime r, value = v, ON = classify cfg v\<rparr>) (zip data col)"

definition object_frame :: "row list \<Rightarrow> (real option, unit) reading list" where
  "object_frame data = map (\<lambda>r. \<lparr>time = rtime r, value = (), ON = False\<rparr>) data"

definition runonce_process_vibration_data ::
  "row list \<Rightarrow> config \<Rightarrow> (error + day_result list) option" where
  "runonce_process_vibration_data data cfg =
     (case extract_columns data SZ of
        Inl e \<Rightarrow> Some (Inl e)
      | Inr col \<Rightarrow>
          if col \<noteq> [] \<and> list_all (\<lambda>c. c = None) col then
            (if groupby_date (object_frame data) = [] then Some (Inr [])
             else Some (Inl TypeError))
          else
            map_option Inr
              (process_groups (runonce_valid_on cfg) (runonce_off_reading cfg) cfg
                 (groupby_date (runonce_frame data cfg col))))"

text \<open>
  \<^verbatim>\<open>insert_metrics_to_db\<close>: the value stored as \<^verbatim>\<open>op_hours\<close>,
  \<^verbatim>\<open>result['on_hours'] + (result['on_minutes'] / 60)\<close>.
\<close>

definition on_hours_decimal :: "day_result \<Rightarrow> real" where
  "on_hours_decimal result = real_of_int (on_hours result) + real_of_int (on_minutes result) / 60"

section \<open>Concrete inputs\<close>

text \<open>One \<^verbatim>\<open>{"sensor_type": name, "value": x}\<close> entry of a payload.\<close>

definition entry :: "string \<Rightarrow> real \<Rightarrow> pyval" where
  "entry name x = PDict [(''sensor_type'', PStr name), (''value'', PFloat (Fin x))]"

definition results_of :: "(error + day_result list) option \<Rightarrow> day_result list" where
  "results_of out = (case out of Some (Inr results) \<Rightarrow> results | _ \<Rightarrow> [])"

text \<open>
  The scenario of the specification: three readings of one day, 0.1 at 0 s,
  0.5 at 300 s and 0.6 at 480 s, with the parameters \<^verbatim>\<open>process_device\<close> passes
  for a threshold of 0.41.
\<close>

definition scenario_config :: config where
  "scenario_config =
     \<lparr>positive_threshold = 0.41, negative_threshold = - 0.41, window_size = 15,
      max_vibration = 3, consecutive_off_count = 100\<rparr>"

definition scenario_data :: "row list" where
  "scenario_data =
     [\<lparr>sensor_readings = Obj (PList [entry ''sZ'' 0.1]), rtime = Some 0\<rparr>,
      \<lparr>sensor_readings = Obj (PList [entry ''sZ'' 0.5]), rtime = Some 300\<rparr>,
      \<lparr>sensor_readings = Obj (PList [entry ''sZ'' 0.6]), rtime = Some 480\<rparr>]"

text \<open>
  A day with a reading that lacks the \<^verbatim>\<open>sZ\<close> entry while a cycle waits for its
  OFF confirmation: ON, OFF, absent, ON, one minute apart, with two
  consecutive OFF readings required.
\<close>

definition absent_config :: config where
  "absent_config =
     \<lparr>positive_threshold = 0.41, negative_threshold = - 0.41, window_size = 15,
      max_vibration = 3, consecutive_off_count = 2\<rparr>"

definition absent_data :: "row list" where
  "absent_data =
     [\<lparr>sensor_readings = Obj (PList [entry ''sX'' 0, entry ''sY'' 0, entry ''sZ'' 1]),
       rtime = Some 0\<rparr>,
      \<lparr>sensor_readings = Obj (PList [entry ''sZ'' 0]), rtime = Some 60\<rparr>,
      \<lparr>sensor_readings = Obj (PList [entry ''sX'' 0]), rtime = Some 120\<rparr>,
      \<lparr>sensor_readings = Obj (PList [entry ''sZ'' 1]), rtime = Some 180\<rparr>]"

text \<open>
  A shorter day of the same kind: ON, absent, ON, with one OFF reading
  required.
\<close>

definition drift_config :: config where
  "drift_config =
     \<lparr>positive_threshold = 0.41, negative_threshold = - 0.41, window_size = 15,
      max_vibration = 3, consecutive_off_count = 1\<rparr>"

definition drift_data :: "row list" where
  "drift_data =
     [\<lparr>sensor_readings = Obj (PList [entry ''sX'' 0, entry ''sY'' 0, entry ''sZ'' 1]),
       rtime = Some 0\<rparr>,
      \<lparr>sensor_readings = Obj (PList [entry ''sY'' 0]), rtime = Some 60\<rparr>,
      \<lparr>sensor_readings = Obj (PList [entry ''sZ'' 1]), rtime = Some 120\<rparr>]"

text \<open>
  A payload that is one JSON object instead of an array of objects, as text.
\<close>

definition single_object_payload :: payload where
  "single_object_payload = Text (Some (entry ''sZ'' 1))"

text \<open>The day record of the scenario.\<close>

definition scenario_result :: day_result where
  "scenario_result = \<lparr>date = 0, on_hours = 0, on_minutes = 3, off_hours = 23, off_minutes = 57,
                 total_on_seconds = 180, total_off_seconds = 86220, cycle_count = 1\<rparr>"

text \<open>The sorted group of the scenario's day, as the per-day loops read it.\<close>

definition scenario_group :: "(real, pyfloat option) reading list" where
  "scenario_group =
     [\<lparr>time = 0, value = Some (Fin 0.1), ON = False\<rparr>,
      \<lparr>time = 300, value = Some (Fin 0.5), ON = True\<rparr>,
      \<lparr>time = 480, value = Some (Fin 0.6), ON = True\<rparr>]"



section \<open>Auxiliary notions of the proofs\<close>

text \<open>
  The span of time from the first reading of a day to the last reading before
  index \<open>i\<close>: the bound the ON-time loop keeps on its accumulator.
\<close>

definition span_before :: "(real, 'v) reading list \<Rightarrow> nat \<Rightarrow> real" where
  "span_before grp i =
     (if i = 0 then 0 else time (grp ! (min i (length grp) - 1)) - time (grp ! 0))"

text \<open>
  A row with its value rewritten: after \<^verbatim>\<open>fillna(0)\<close> the cells of
  \<^verbatim>\<open>integrated_main.py\<close> are those of \<^verbatim>\<open>integrated_runonce.py\<close> under \<open>Some\<close>
  wherever the value is present.
\<close>

definition map_value :: "('v \<Rightarrow> 'w) \<Rightarrow> ('t, 'v) reading \<Rightarrow> ('t, 'w) reading" where
  "map_value h r = \<lparr>time = time r, value = h (value r), ON = ON r\<rparr>"

section \<open>Auxiliary lemmas\<close>

lemma scenario_run:
  "process_vibration_data scenario_data SZ scenario_config = Some (Inr [scenario_result])"
  by code_simp

lemma process_groups_member:
  "process_groups valid off cfg gs = Some rs \<Longrightarrow> r \<in> set rs
   \<Longrightarrow> \<exists>dg \<in> set gs. process_day valid off cfg dg = Some r"
proof (induction gs arbitrary: rs)
  case Nil
  then show ?case by simp
next
  case (Cons dg gs)
  then show ?case by (auto split: option.splits)
qed

lemma process_day_fields:
  assumes "process_day valid off cfg dg = Some r"
  shows "total_on_time cfg (sort_values_time (snd dg)) = Some (total_on_seconds r)"
    and "total_off_seconds r = total_seconds_in_day - total_on_seconds r"
    and "on_hours r = fst (hours_minutes (total_on_seconds r))"
    and "on_minutes r = snd (hours_minutes (total_on_seconds r))"
    and "off_hours r = fst (hours_minutes (total_off_seconds r))"
    and "off_minutes r = snd (hours_minutes (total_off_seconds r))"
    and "date r = fst dg"
    and "cycle_count r =
           count_cycles valid off (consecutive_off_count cfg) (sort_values_time (snd dg)) (0, 0)"
  using assms by (auto simp: process_day_def Let_def split: prod.splits option.splits)

lemma main_results_day:
  assumes "process_vibration_data data sensor_column cfg = Some (Inr results)" and "r \<in> set results"
  shows "\<exists>col dg. extract_columns data sensor_column = Inr col
           \<and> dg \<in> set (groupby_date (main_frame data sensor_column cfg col))
           \<and> process_day (valid_on cfg) (off_reading cfg) cfg dg = Some r"
proof -
  from assms(1) obtain col where col: "extract_columns data sensor_column = Inr col"
    and "process_groups (valid_on cfg) (off_reading cfg) cfg
           (groupby_date (main_frame data sensor_column cfg col)) = Some results"
    by (auto simp: process_vibration_data_def split: sum.splits)
  from process_groups_member [OF this(2) assms(2)] col show ?thesis by blast
qed

lemma runonce_results_day:
  assumes "runonce_process_vibration_data data cfg = Some (Inr results)" and "r \<in> set results"
  shows "\<exists>col dg. extract_columns data SZ = Inr col
           \<and> dg \<in> set (groupby_date (runonce_frame data cfg col))
           \<and> process_day (runonce_valid_on cfg) (runonce_off_reading cfg) cfg dg = Some r"
proof -
  from assms obtain col where col: "extract_columns data SZ = Inr col"
    and "process_groups (runonce_valid_on cfg) (runonce_off_reading cfg) cfg
           (groupby_date (runonce_frame data cfg col)) = Some results"
    by (auto simp: runonce_process_vibration_data_def split: sum.splits if_splits)
  from process_groups_member [OF this(2) assms(2)] col show ?thesis by blast
qed

lemma engine_result_fields:
  assumes "process_vibration_data data sensor_column cfg = Some (Inr results)
           \<or> runonce_process_vibration_data data cfg = Some (Inr results)"
    and "r \<in> set results"
  shows "total_off_seconds r = total_seconds_in_day - total_on_seconds r"
    and "on_hours r = fst (hours_minutes (total_on_seconds r))"
    and "on_minutes r = snd (hours_minutes (total_on_seconds r))"
proof -
  have "total_off_seconds r = total_seconds_in_day - total_on_seconds r
        \<and> on_hours r = fst (hours_minutes (total_on_seconds r))
        \<and> on_minutes r = snd (hours_minutes (total_on_seconds r))"
    using assms(1)
  proof
    assume "process_vibration_data data sensor_column cfg = Some (Inr results)"
    from main_results_day [OF this assms(2)] obtain col dg where
      "process_day (valid_on cfg) (off_reading cfg) cfg dg = Some r" by blast
    from process_day_fields(2,3,4) [OF this] show ?thesis by simp
  next
    assume "runonce_process_vibration_data data cfg = Some (Inr results)"
    from runonce_results_day [OF this assms(2)] obtain col dg where
      "process_day (runonce_valid_on cfg) (runonce_off_reading cfg) cfg dg = Some r" by blast
    from process_day_fields(2,3,4) [OF this] show ?thesis by simp
  qed
  then show "total_off_seconds r = total_seconds_in_day - total_on_seconds r"
    and "on_hours r = fst (hours_minutes (total_on_seconds r))"
    and "on_minutes r = snd (hours_minutes (total_on_seconds r))"
    by simp_all
qed

lemma hours_minutes_decimal:
  "real_of_int (fst (hours_minutes x)) + real_of_int (snd (hours_minutes x)) / 60
     = real_of_int \<lfloor>x / 60\<rfloor> / 60"
proof -
  let ?q = "\<lfloor>x / 60\<rfloor>"
  have "?q = 60 * (?q div 60) + ?q mod 60" by simp
  then have "real_of_int ?q = 60 * real_of_int (?q div 60) + real_of_int (?q mod 60)"
    by (metis of_int_add of_int_mult of_int_numeral)
  then show ?thesis by (simp add: hours_minutes_def field_simps)
qed




lemma sorted_time_mono:
  "sorted (map time grp) \<Longrightarrow> i \<le> j \<Longrightarrow> j < length grp \<Longrightarrow> time (grp ! i) \<le> time (grp ! j)"
  using sorted_iff_nth_mono [of "map time grp"] by fastforce

lemma window_data_set:
  "set (window_data grp s e) = {r \<in> set grp. s \<le> time r \<and> time r < e}"
  by (auto simp: window_data_def)

lemma window_index_bound:
  assumes srt: "sorted (map time grp)" and i: "i < length grp" and k: "k < length grp"
    and lo: "time (grp ! i) \<le> time (grp ! k)" and hi: "time (grp ! k) < e"
  shows "k < i + length (window_data grp (time (grp ! i)) e)"
proof (cases "k < i")
  case True
  then show ?thesis by simp
next
  case False
  let ?A = "{m. m < length grp \<and> time (grp ! i) \<le> time (grp ! m) \<and> time (grp ! m) < e}"
  have len: "length (window_data grp (time (grp ! i)) e) = card ?A"
    by (simp add: window_data_def length_filter_conv_card)
  have sub: "{i..k} \<subseteq> ?A"
  proof
    fix m assume "m \<in> {i..k}"
    then have m: "i \<le> m" "m \<le> k" by simp_all
    with k have "m < length grp" by simp
    moreover have "time (grp ! i) \<le> time (grp ! m)"
      using sorted_time_mono [OF srt m(1) \<open>m < length grp\<close>] .
    moreover have "time (grp ! m) \<le> time (grp ! k)"
      using sorted_time_mono [OF srt m(2) k] .
    ultimately show "m \<in> ?A" using hi by simp
  qed
  have "finite ?A" by simp
  then have "card {i..k} \<le> card ?A" using sub by (rule card_mono)
  then show ?thesis using False len by simp
qed

lemma seed_in_window:
  assumes "i < length grp" and "0 < wdelta"
  shows "0 < length (window_data grp (time (grp ! i)) (time (grp ! i) + wdelta))"
proof -
  have "grp ! i \<in> set (window_data grp (time (grp ! i)) (time (grp ! i) + wdelta))"
    using assms by (simp add: window_data_set)
  then show ?thesis by (cases "window_data grp (time (grp ! i)) (time (grp ! i) + wdelta)") auto
qed

lemma span_before_le:
  assumes "sorted (map time grp)" and "i < length grp"
  shows "span_before grp i \<le> time (grp ! i) - time (grp ! 0)"
proof (cases "i = 0")
  case True
  then show ?thesis by (simp add: span_before_def)
next
  case False
  then have "min i (length grp) - 1 \<le> i" by simp
  from sorted_time_mono [OF assms(1) this assms(2)] False
  show ?thesis by (simp add: span_before_def)
qed

lemma span_before_ge:
  assumes "sorted (map time grp)" and "k < length grp" and "k < i"
  shows "time (grp ! k) - time (grp ! 0) \<le> span_before grp i"
proof -
  have a: "k \<le> min i (length grp) - 1" using assms(2,3) by simp
  have b: "min i (length grp) - 1 < length grp" using assms(2) by simp
  from sorted_time_mono [OF assms(1) a b] assms(3)
  show ?thesis by (simp add: span_before_def)
qed

lemma span_before_end:
  "length grp \<le> i \<Longrightarrow> span_before grp i = span_before grp (length grp)"
  by (cases "length grp = 0") (auto simp: span_before_def min_def)

lemma on_time_step_inv:
  assumes srt: "sorted (map time grp)" and i: "i < length grp"
    and acc: "0 \<le> acc" "acc \<le> span_before grp i"
    and step: "on_time_step wdelta grp (i, acc) = (i', acc')"
  shows "0 \<le> acc' \<and> acc' \<le> span_before grp i'"
proof -
  let ?t = "time (grp ! i)"
  let ?wd = "window_data grp ?t (?t + wdelta)"
  let ?T = "set (map time ?wd)"
  have up: "acc \<le> span_before grp (i + 1)"
    using span_before_le [OF srt i] span_before_ge [OF srt i, of "i + 1"] acc(2) by simp
  show ?thesis
  proof (cases "ON (grp ! i) \<and> length ?wd \<noteq> 1")
    case False
    then have "i' = i + 1" "acc' = acc"
      using step by (auto simp: on_time_step_def Let_def split: if_splits)
    then show ?thesis using acc(1) up by simp
  next
    case True
    show ?thesis
    proof (cases "length ?wd > 1")
      case False
      with True have "length ?wd = 0" by linarith
      then have "i' = i" "acc' = acc"
        using step True by (auto simp: on_time_step_def Let_def)
      then show ?thesis using acc by simp
    next
      case long: True
      have i': "i' = i + length ?wd"
        and acc': "acc' = acc + min (Max ?T - Min ?T) wdelta"
        using step True long by (auto simp: on_time_step_def Let_def)
      have ne: "?T \<noteq> {}" using long by auto
      have fin: "finite ?T" by simp
      from Max_in [OF fin ne] obtain r where r: "r \<in> set ?wd" "time r = Max ?T" by auto
      then have rg: "r \<in> set grp" "?t \<le> time r" "time r < ?t + wdelta"
        by (simp_all add: window_data_set)
      then obtain k where k: "k < length grp" "grp ! k = r"
        by (auto simp: in_set_conv_nth)
      have ki: "k < i'"
        using window_index_bound [OF srt i k(1), of "?t + wdelta"] rg k(2) i' by simp
      have minge: "?t \<le> Min ?T"
        using fin ne by (auto simp: window_data_set)
      have minmax: "Min ?T \<le> Max ?T"
        using fin ne by (meson Max_in Min_le)
      have wpos: "0 < wdelta" using rg by simp
      have m0: "0 \<le> min (Max ?T - Min ?T) wdelta" using minmax wpos by simp
      have m1: "min (Max ?T - Min ?T) wdelta \<le> time (grp ! k) - ?t"
        using minge r(2) k(2) by simp
      have "acc' \<le> time (grp ! k) - time (grp ! 0)"
        using acc' m1 acc(2) span_before_le [OF srt i] by linarith
      also have "\<dots> \<le> span_before grp i'"
        using span_before_ge [OF srt k(1) ki] .
      finally show ?thesis using acc' acc(1) m0 by simp
    qed
  qed
qed

lemma on_time_loop_bound:
  assumes ret: "on_time_loop wdelta grp st = Some y"
  shows "sorted (map time grp) \<longrightarrow> 0 \<le> snd st \<longrightarrow> snd st \<le> span_before grp (fst st)
         \<longrightarrow> 0 \<le> y \<and> y \<le> span_before grp (length grp)"
proof (rule on_time_loop.raw_induct
    [where P = "\<lambda>w g s z. sorted (map time g) \<longrightarrow> 0 \<le> snd s \<longrightarrow> snd s \<le> span_before g (fst s)
                          \<longrightarrow> 0 \<le> z \<and> z \<le> span_before g (length g)", OF _ ret])
  fix loop :: "real \<Rightarrow> (real, 'a) reading list \<Rightarrow> nat \<times> real \<Rightarrow> real option"
    and w :: real and g :: "(real, 'a) reading list" and s :: "nat \<times> real" and z :: real
  assume IH: "\<And>w' g' s' z'. loop w' g' s' = Some z' \<Longrightarrow>
                sorted (map time g') \<longrightarrow> 0 \<le> snd s' \<longrightarrow> snd s' \<le> span_before g' (fst s')
                \<longrightarrow> 0 \<le> z' \<and> z' \<le> span_before g' (length g')"
    and eq: "(if fst s < length g then loop w g (on_time_step w g s) else Some (snd s)) = Some z"
  show "sorted (map time g) \<longrightarrow> 0 \<le> snd s \<longrightarrow> snd s \<le> span_before g (fst s)
        \<longrightarrow> 0 \<le> z \<and> z \<le> span_before g (length g)"
  proof (intro impI)
    assume srt: "sorted (map time g)" and a0: "0 \<le> snd s"
      and a1: "snd s \<le> span_before g (fst s)"
    show "0 \<le> z \<and> z \<le> span_before g (length g)"
    proof (cases "fst s < length g")
      case False
      with eq have "z = snd s" by simp
      moreover have "span_before g (fst s) = span_before g (length g)"
        using False by (intro span_before_end) simp
      ultimately show ?thesis using a0 a1 by simp
    next
      case True
      obtain i' acc' where step: "on_time_step w g (fst s, snd s) = (i', acc')"
        by (cases "on_time_step w g (fst s, snd s)")
      from on_time_step_inv [OF srt True a0 a1 step]
      have inv': "0 \<le> acc'" "acc' \<le> span_before g i'" by blast+
      from eq True have "loop w g (on_time_step w g s) = Some z" by simp
      with step have "loop w g (i', acc') = Some z" by simp
      from IH [OF this] srt inv' show ?thesis by simp
    qed
  qed
qed

lemma on_time_loop_terminates:
  assumes "0 < wdelta"
  shows "\<exists>y. on_time_loop wdelta grp (i, acc) = Some y"
proof (induction "length grp - i" arbitrary: i acc rule: less_induct)
  case less
  show ?case
  proof (cases "i < length grp")
    case False
    then show ?thesis by (subst on_time_loop.simps) simp
  next
    case True
    obtain i' acc' where step: "on_time_step wdelta grp (i, acc) = (i', acc')"
      by (cases "on_time_step wdelta grp (i, acc)")
    have "i < i'"
      using step seed_in_window [OF True assms]
      by (auto simp: on_time_step_def Let_def split: if_splits)
    then have "length grp - i' < length grp - i" using True by simp
    from less [OF this] obtain y where "on_time_loop wdelta grp (i', acc') = Some y" by blast
    then have "on_time_loop wdelta grp (i, acc) = Some y"
      using True step by (subst on_time_loop.simps) simp
    then show ?thesis by blast
  qed
qed

lemma day_span_lt:
  assumes "\<forall>r \<in> set grp. date_of (time r) = d"
  shows "span_before grp (length grp) < 86400"
proof (cases "grp = []")
  case True
  then show ?thesis by (simp add: span_before_def)
next
  case False
  then have "grp ! (length grp - 1) \<in> set grp" "grp ! 0 \<in> set grp" by simp_all
  with assms have d: "\<lfloor>time (grp ! (length grp - 1)) / 86400\<rfloor> = d" "\<lfloor>time (grp ! 0) / 86400\<rfloor> = d"
    by (simp_all add: date_of_def)
  have "time (grp ! (length grp - 1)) / 86400 < real_of_int d + 1"
    using d(1) by linarith
  moreover have "real_of_int d \<le> time (grp ! 0) / 86400"
    using d(2) by linarith
  ultimately have "time (grp ! (length grp - 1)) - time (grp ! 0) < 86400" by simp
  then show ?thesis using False by (simp add: span_before_def)
qed

lemma total_on_time_bounds:
  assumes "sorted (map time grp)" and "\<forall>r \<in> set grp. date_of (time r) = d"
    and "total_on_time cfg grp = Some y"
  shows "0 \<le> y \<and> y < 86400"
proof -
  from assms(3) have "on_time_loop (window_delta cfg) grp (0, 0) = Some y"
    by (simp add: total_on_time_def)
  from on_time_loop_bound [OF this] assms(1)
  have "0 \<le> y \<and> y \<le> span_before grp (length grp)" by (simp add: span_before_def)
  with day_span_lt [OF assms(2)] show ?thesis by simp
qed

lemma scenario_group_on_time: "total_on_time scenario_config scenario_group = Some 180"
  by code_simp

subsection \<open>Rows that differ only in how the value is held\<close>

lemma insort_key_map:
  "insort_key k (f x) (map f ys) = map f (insort_key (\<lambda>y. k (f y)) x ys)"
  by (induction ys) simp_all

lemma sort_key_map: "sort_key k (map f xs) = map f (sort_key (\<lambda>y. k (f y)) xs)"
  by (induction xs) (simp_all add: insort_key_map)

lemma window_data_map:
  assumes "\<And>r. time (f r) = time r"
  shows "window_data (map f grp) s e = map f (window_data grp s e)"
  by (simp add: window_data_def filter_map comp_def assms)

lemma on_time_step_map:
  assumes t: "\<And>r. time (f r) = time r" and o: "\<And>r. ON (f r) = ON r"
    and i: "fst st < length grp"
  shows "on_time_step wdelta (map f grp) st = on_time_step wdelta grp st"
proof -
  obtain i acc where st: "st = (i, acc)" by (cases st)
  have m: "map time (map f xs) = map time xs" for xs by (simp add: t)
  show ?thesis
    using i unfolding st on_time_step_def
    by (simp add: window_data_map [of f, OF t] t o m Let_def del: map_map)
qed

lemma on_time_loop_transfer:
  assumes ret: "on_time_loop wdelta grp st = Some y"
  shows "\<forall>grp' :: (real, 'b) reading list. length grp' = length grp
           \<and> (\<forall>s. fst s < length grp \<longrightarrow> on_time_step wdelta grp' s = on_time_step wdelta grp s)
           \<longrightarrow> on_time_loop wdelta grp' st = Some y"
proof (rule on_time_loop.raw_induct
    [where P = "\<lambda>w g s z. \<forall>g' :: (real, 'b) reading list. length g' = length g
           \<and> (\<forall>s'. fst s' < length g \<longrightarrow> on_time_step w g' s' = on_time_step w g s')
           \<longrightarrow> on_time_loop w g' s = Some z", OF _ ret])
  fix loop :: "real \<Rightarrow> (real, 'a) reading list \<Rightarrow> nat \<times> real \<Rightarrow> real option"
    and w :: real and g :: "(real, 'a) reading list" and s :: "nat \<times> real" and z :: real
  assume IH: "\<And>w' g0 s0 z0. loop w' g0 s0 = Some z0 \<Longrightarrow>
      \<forall>g' :: (real, 'b) reading list. length g' = length g0
           \<and> (\<forall>s'. fst s' < length g0 \<longrightarrow> on_time_step w' g' s' = on_time_step w' g0 s')
           \<longrightarrow> on_time_loop w' g' s0 = Some z0"
    and eq: "(if fst s < length g then loop w g (on_time_step w g s) else Some (snd s)) = Some z"
  show "\<forall>g' :: (real, 'b) reading list. length g' = length g
           \<and> (\<forall>s'. fst s' < length g \<longrightarrow> on_time_step w g' s' = on_time_step w g s')
           \<longrightarrow> on_time_loop w g' s = Some z"
  proof (intro allI impI, elim conjE)
    fix g' :: "(real, 'b) reading list"
    assume len: "length g' = length g"
      and stp: "\<forall>s'. fst s' < length g \<longrightarrow> on_time_step w g' s' = on_time_step w g s'"
    show "on_time_loop w g' s = Some z"
    proof (cases "fst s < length g")
      case False
      with eq have "z = snd s" by simp
      with False len show ?thesis by (subst on_time_loop.simps) simp
    next
      case True
      with eq have "loop w g (on_time_step w g s) = Some z" by simp
      from IH [OF this] len stp
      have "on_time_loop w g' (on_time_step w g s) = Some z" by blast
      moreover have "on_time_step w g' s = on_time_step w g s" using stp True by blast
      ultimately show ?thesis using True len by (subst on_time_loop.simps) simp
    qed
  qed
qed


lemma on_time_loop_map:
  fixes f :: "(real, 'a) reading \<Rightarrow> (real, 'b) reading"
  assumes t: "\<And>r. time (f r) = time r" and o: "\<And>r. ON (f r) = ON r"
  shows "on_time_loop wdelta (map f grp) st = on_time_loop wdelta grp st"
proof -
  have fwd: "on_time_loop wdelta (map f grp) st = Some y" if "on_time_loop wdelta grp st = Some y" for y
    using on_time_loop_transfer [OF that, where ?'b = 'b] on_time_step_map [of f, OF t o]
    by (auto simp del: map_map)
  have bwd: "on_time_loop wdelta grp st = Some y" if "on_time_loop wdelta (map f grp) st = Some y" for y
    using on_time_loop_transfer [OF that, where ?'b = 'a] on_time_step_map [of f, OF t o]
    by (auto simp del: map_map)
  show ?thesis
  proof (cases "on_time_loop wdelta grp st")
    case (Some y)
    with fwd show ?thesis by simp
  next
    case None
    show ?thesis
    proof (cases "on_time_loop wdelta (map f grp) st")
      case None
      with \<open>on_time_loop wdelta grp st = None\<close> show ?thesis by simp
    next
      case (Some y)
      from bwd [OF this] None show ?thesis by simp
    qed
  qed
qed

lemma slide_map:
  assumes "\<And>r. valid' (value (f r)) = valid (value r)"
  shows "slide valid' (map f grp) j = slide valid grp j"
  using assms
proof (induction valid grp j rule: slide.induct)
  case (1 valid grp j)
  note v = "1.prems"
  show ?case
  proof (cases "j < length grp \<and> valid (value (grp ! j))")
    case True
    then have "slide valid' (map f grp) (j + 1) = slide valid grp (j + 1)"
      using "1.IH" v by simp
    with True v show ?thesis
      by (subst slide.simps, subst (2) slide.simps) simp
  next
    case False
    with v show ?thesis
      by (subst slide.simps, subst (2) slide.simps) auto
  qed
qed

lemma off_confirm_map:
  assumes "\<And>r. off' (value (f r)) = off (value r)"
  shows "off_confirm off' n (map f grp) j c = off_confirm off n grp j c"
  using assms
proof (induction off n grp j c rule: off_confirm.induct)
  case (1 off n grp j c)
  note o = "1.prems"
  have u: "off_counter_update off' (value (map f grp ! j)) c
             = off_counter_update off (value (grp ! j)) c" if "j < length grp"
    using that o by (simp add: off_counter_update_def)
  show ?case
  proof (cases "j < length grp \<and> \<not> n \<le> off_counter_update off (value (grp ! j)) c")
    case True
    then have "off_confirm off' n (map f grp) (j + 1) (off_counter_update off (value (grp ! j)) c)
                 = off_confirm off n grp (j + 1) (off_counter_update off (value (grp ! j)) c)"
      using "1.IH" o by simp
    with True u show ?thesis
      by (subst off_confirm.simps, subst (2) off_confirm.simps) (simp add: Let_def)
  next
    case False
    with u show ?thesis
      by (subst off_confirm.simps, subst (2) off_confirm.simps) (auto simp: Let_def)
  qed
qed

lemma cycle_step_map:
  assumes v: "\<And>r. valid' (value (f r)) = valid (value r)"
    and o: "\<And>r. off' (value (f r)) = off (value r)"
    and j: "fst st < length grp"
  shows "cycle_step valid' off' n (map f grp) st = cycle_step valid off n grp st"
  using j by (cases st)
    (simp add: cycle_step_def slide_map [of valid' f valid, OF v]
       off_confirm_map [of off' f off, OF o] v)

lemma count_cycles_map:
  assumes "\<And>r. valid' (value (f r)) = valid (value r)"
    and "\<And>r. off' (value (f r)) = off (value r)"
  shows "count_cycles valid' off' n (map f grp) st = count_cycles valid off n grp st"
  using assms
proof (induction valid off n grp st rule: count_cycles.induct)
  case (1 valid off n grp st)
  note v = "1.prems"(1) and o = "1.prems"(2)
  show ?case
  proof (cases "fst st < length grp")
    case True
    have "count_cycles valid' off' n (map f grp) st
            = count_cycles valid' off' n (map f grp) (cycle_step valid' off' n (map f grp) st)"
      using True by (subst count_cycles.simps) simp
    also have "\<dots> = count_cycles valid' off' n (map f grp) (cycle_step valid off n grp st)"
      using cycle_step_map [of valid' f valid off' off st grp n, OF v o True] by simp
    also have "\<dots> = count_cycles valid off n grp (cycle_step valid off n grp st)"
      using "1.IH" [OF True v o] .
    also have "\<dots> = count_cycles valid off n grp st"
      using True by (subst (2) count_cycles.simps) simp
    finally show ?thesis .
  next
    case False
    then show ?thesis
      by (subst count_cycles.simps, subst (2) count_cycles.simps) simp
  qed
qed

lemma map_value_simps [simp]:
  "time (map_value h r) = time r" "value (map_value h r) = h (value r)"
  "ON (map_value h r) = ON r"
  by (simp_all add: map_value_def)

lemma timed_rows_map: "timed_rows (map (map_value h) fr) = map (map_value h) (timed_rows fr)"
  by (induction fr) (auto simp: timed_rows_def map_value_def split: option.splits)

lemma groupby_date_map:
  "groupby_date (map (map_value h) fr)
     = map (\<lambda>dg. (fst dg, map (map_value h) (snd dg))) (groupby_date fr)"
  by (simp add: groupby_date_def Let_def timed_rows_map filter_map comp_def)

lemma sort_values_time_map:
  "sort_values_time (map (map_value h) grp) = map (map_value h) (sort_values_time grp)"
  by (simp add: sort_values_time_def sort_key_map)

lemma process_day_map:
  assumes v: "\<And>c. valid' (h c) = valid c" and o: "\<And>c. off' (h c) = off c"
  shows "process_day valid' off' cfg (d, map (map_value h) g) = process_day valid off cfg (d, g)"
proof -
  have t: "total_on_time cfg (map (map_value h) (sort_values_time g))
             = total_on_time cfg (sort_values_time g)"
    by (simp add: total_on_time_def on_time_loop_map)
  have c: "count_cycles valid' off' n (map (map_value h) (sort_values_time g)) st
             = count_cycles valid off n (sort_values_time g) st" for n st
    by (rule count_cycles_map) (simp_all add: v o)
  show ?thesis
    by (simp add: process_day_def sort_values_time_map t c Let_def split: option.splits)
qed

lemma process_groups_map:
  assumes v: "\<And>c. valid' (h c) = valid c" and o: "\<And>c. off' (h c) = off c"
  shows "process_groups valid' off' cfg (map (\<lambda>dg. (fst dg, map (map_value h) (snd dg))) gs)
           = process_groups valid off cfg gs"
proof (induction gs)
  case Nil
  show ?case by simp
next
  case (Cons dg gs)
  obtain d g where dg: "dg = (d, g)" by (cases dg)
  show ?case
    using Cons.IH process_day_map [of valid' h valid off' off cfg d g, OF v o]
    by (simp add: dg split: option.splits)
qed

lemma present_frames:
  assumes "\<forall>c \<in> set col. c \<noteq> None \<and> c \<noteq> Some NaN"
  shows "main_frame data SZ cfg col = map (map_value Some) (runonce_frame data cfg col)"
proof -
  have "fillna0 c = to_float64 c" if "c \<in> set col" for c
  proof -
    from that assms obtain v where "c = Some v" "v \<noteq> NaN" by (cases c) auto
    then show ?thesis by (cases v) (simp_all add: fillna0_def to_float64_def)
  qed
  then have "\<And>r c. (r, c) \<in> set (zip data col) \<Longrightarrow> fillna0 c = to_float64 c"
    by (meson set_zip_rightD)
  then show ?thesis
    by (auto simp: main_frame_def runonce_frame_def map_value_def Let_def)
qed

lemma engines_agree_when_present:
  assumes "extract_columns data SZ = Inr col"
    and "\<forall>c \<in> set col. c \<noteq> None \<and> c \<noteq> Some NaN"
  shows "process_vibration_data data SZ cfg = runonce_process_vibration_data data cfg"
proof -
  have obj: "\<not> (col \<noteq> [] \<and> list_all (\<lambda>c. c = None) col)"
    using assms(2) by (cases col) auto
  have v: "valid_on cfg (Some c) = runonce_valid_on cfg c" for c
    by (simp add: valid_on_def runonce_valid_on_def)
  have o: "off_reading cfg (Some c) = runonce_off_reading cfg c" for c
    by (simp add: off_reading_def runonce_off_reading_def)
  have "process_groups (valid_on cfg) (off_reading cfg) cfg
          (groupby_date (main_frame data SZ cfg col))
        = process_groups (runonce_valid_on cfg) (runonce_off_reading cfg) cfg
          (groupby_date (runonce_frame data cfg col))"
    unfolding present_frames [OF assms(2)] groupby_date_map
    by (rule process_groups_map) (simp_all add: v o)
  then show ?thesis
    using assms(1) obj
    by (auto simp: process_vibration_data_def runonce_process_vibration_data_def)
qed

subsection \<open>What the engines do by design on the inputs of the refuted claims\<close>

lemma main_absent_reading:
  assumes "0 \<le> positive_threshold cfg" and "negative_threshold cfg \<le> 0"
  shows "\<not> classify cfg (clean col (fillna0 None))
       \<and> \<not> valid_on cfg (Some (clean col (fillna0 None)))
       \<and> off_counter_update (off_reading cfg) (Some (clean col (fillna0 None))) k = k + 1"
  using assms
  by (simp add: fillna0_def clean_def classify_def valid_on_def off_reading_def
      off_counter_update_def)

lemma scan_readings_first_match:
  assumes "\<forall>e \<in> set before. \<exists>d t. e = PDict d \<and> map_of d ''sensor_type'' = Some t
             \<and> t \<noteq> PStr sensor_type"
    and "map_of d ''sensor_type'' = Some (PStr sensor_type)"
    and "map_of d ''value'' = Some v"
  shows "scan_readings sensor_type (before @ PDict d # rest)
           = (case py_float v of
                Inr f \<Rightarrow> Inr (Some f)
              | Inl e \<Rightarrow> if e = ValueError \<or> e = TypeError then Inr None else Inl e)"
  using assms by (induction before) auto

lemma py_float_errors:
  "py_float v = Inl err \<Longrightarrow> err = TypeError \<or> err = ValueError \<or> err = OverflowError"
  by (cases v) (auto split: option.splits if_splits)

lemma scan_readings_dicts:
  assumes "\<forall>e \<in> set entries. \<exists>d. e = PDict d
             \<and> (\<forall>i. map_of d ''value'' = Some (PInt i) \<longrightarrow> \<bar>i\<bar> < 2 ^ 1024 - 2 ^ 970)"
    and "scan_readings sensor_type entries = Inl err"
  shows "err = KeyError"
  using assms
proof (induction entries)
  case Nil
  then show ?case by simp
next
  case (Cons e entries)
  then obtain d where d: "e = PDict d"
    and big: "\<forall>i. map_of d ''value'' = Some (PInt i) \<longrightarrow> \<bar>i\<bar> < 2 ^ 1024 - 2 ^ 970"
    by auto
  have pf: "py_float v \<noteq> Inl OverflowError" if "map_of d ''value'' = Some v" for v
    using that big by (cases v) (auto split: option.splits)
  from Cons.prems(1) have rest: "\<forall>e \<in> set entries. \<exists>d. e = PDict d
             \<and> (\<forall>i. map_of d ''value'' = Some (PInt i) \<longrightarrow> \<bar>i\<bar> < 2 ^ 1024 - 2 ^ 970)"
    by simp
  show ?case
  proof (cases "map_of d ''sensor_type''")
    case None
    with Cons.prems(2) d show ?thesis by simp
  next
    case (Some t)
    show ?thesis
    proof (cases "t = PStr sensor_type")
      case False
      with Some Cons.prems(2) d have "scan_readings sensor_type entries = Inl err" by simp
      from Cons.IH [OF rest this] show ?thesis .
    next
      case True
      show ?thesis
      proof (cases "map_of d ''value''")
        case None
        with Some True Cons.prems(2) d show ?thesis by simp
      next
        case v: (Some v)
        show ?thesis
        proof (cases "py_float v")
          case (Inr f)
          with Some True v Cons.prems(2) d show ?thesis by simp
        next
          case (Inl e')
          with py_float_errors [OF Inl] pf [OF v] Some True v Cons.prems(2) d
          show ?thesis by auto
        qed
      qed
    qed
  qed
qed

lemma extract_sensor_value_entry_list:
  assumes "\<forall>e \<in> set entries. \<exists>d. e = PDict d
             \<and> (\<forall>i. map_of d ''value'' = Some (PInt i) \<longrightarrow> \<bar>i\<bar> < 2 ^ 1024 - 2 ^ 970)"
    and "cell = Obj (PList entries) \<or> cell = Text (Some (PList entries))"
  shows "\<exists>r. extract_sensor_value cell sensor_type = Inr r"
proof -
  have ld: "load_readings cell = Inr (PList entries)"
    using assms(2) by (auto simp: load_readings_def)
  show ?thesis
  proof (cases "scan_readings sensor_type entries")
    case (Inr r)
    then show ?thesis by (simp add: extract_sensor_value_def ld)
  next
    case (Inl err)
    from scan_readings_dicts [OF assms(1) this] Inl
    show ?thesis by (simp add: extract_sensor_value_def ld)
  qed
qed

lemma groupby_date_same_day:
  "(d, g) \<in> set (groupby_date fr) \<Longrightarrow> \<forall>r \<in> set g. date_of (time r) = d"
  by (auto simp: groupby_date_def Let_def)

lemma process_day_on_seconds_bounds:
  assumes "dg \<in> set (groupby_date fr)" and "process_day valid off cfg dg = Some r"
  shows "0 \<le> total_on_seconds r \<and> total_on_seconds r < 86400"
proof -
  obtain d g where dg: "dg = (d, g)" by (cases dg)
  have s: "sorted (map time (sort_values_time g))"
    by (simp add: sort_values_time_def)
  have a: "\<forall>r \<in> set (sort_values_time g). date_of (time r) = d"
    using groupby_date_same_day [of d g fr] assms(1) dg by (simp add: sort_values_time_def)
  from process_day_fields(1) [OF assms(2)] dg
  have "total_on_time cfg (sort_values_time g) = Some (total_on_seconds r)" by simp
  from total_on_time_bounds [OF s a this] show ?thesis .
qed

lemma engine_on_seconds_bounds:
  assumes "process_vibration_data data sensor_column cfg = Some (Inr results)
           \<or> runonce_process_vibration_data data cfg = Some (Inr results)"
    and "r \<in> set results"
  shows "0 \<le> total_on_seconds r \<and> total_on_seconds r < 86400 \<and> 0 < total_off_seconds r"
proof -
  have "0 \<le> total_on_seconds r \<and> total_on_seconds r < 86400"
    using assms(1)
  proof
    assume "process_vibration_data data sensor_column cfg = Some (Inr results)"
    from main_results_day [OF this assms(2)] show ?thesis
      using process_day_on_seconds_bounds by blast
  next
    assume "runonce_process_vibration_data data cfg = Some (Inr results)"
    from runonce_results_day [OF this assms(2)] show ?thesis
      using process_day_on_seconds_bounds by blast
  qed
  then show ?thesis
    using engine_result_fields(1) [OF assms] by (simp add: total_seconds_in_day_def)
qed

section \<open>The claims\<close>

text \<open>
  C1 (as stated: for 0.1 at 0 min, 0.5 at 5 min, 0.6 at 8 min, threshold 0.41
  and window 15 min, the day has on_seconds = 480, cycle_count = 1 and
  off_seconds = 85920). The code credits the span of the window that the first
  ON reading opens, from 5 min to 8 min: 180 seconds, not 480.
\<close>

theorem C1_scenario_counterexample:
  "map total_on_seconds (results_of (process_vibration_data scenario_data SZ scenario_config))
     = [180]
   \<and> map total_on_seconds (results_of (process_vibration_data scenario_data SZ scenario_config))
     \<noteq> [480]
   \<and> map total_off_seconds (results_of (process_vibration_data scenario_data SZ scenario_config))
     \<noteq> [85920]"
  by code_simp

text \<open>
  C1 (amended): for that input the engine produces one day record with
  on_seconds = 180, off_seconds = 86220 and cycle_count = 1.
\<close>

theorem C1_scenario:
  "process_vibration_data scenario_data SZ scenario_config =
     Some (Inr [\<lparr>date = 0, on_hours = 0, on_minutes = 3, off_hours = 23, off_minutes = 57,
                 total_on_seconds = 180, total_off_seconds = 86220, cycle_count = 1\<rparr>])"
  by code_simp

text \<open>
  C2: for every day record either engine produces, on_seconds + off_seconds is
  exactly 86400, off_seconds being 86400 minus on_seconds whatever part of the
  day the readings cover.
\<close>

theorem C2_conservation:
  assumes "process_vibration_data data sensor_column cfg = Some (Inr results)
           \<or> runonce_process_vibration_data data cfg = Some (Inr results)"
    and "r \<in> set results"
  shows "total_on_seconds r + total_off_seconds r = 86400
         \<and> total_off_seconds r = 86400 - total_on_seconds r"
  using engine_result_fields(1) [OF assms] by (simp add: total_seconds_in_day_def)

text \<open>The day record of the scenario satisfies the hypotheses of C2.\<close>

theorem C2_conservation_witness:
  "(process_vibration_data scenario_data SZ scenario_config = Some (Inr [scenario_result])
    \<or> runonce_process_vibration_data scenario_data scenario_config = Some (Inr [scenario_result]))
   \<and> scenario_result \<in> set [scenario_result]
   \<and> total_on_seconds scenario_result + total_off_seconds scenario_result = 86400
   \<and> total_off_seconds scenario_result = 86400 - total_on_seconds scenario_result"
proof -
  have h: "process_vibration_data scenario_data SZ scenario_config = Some (Inr [scenario_result])
    \<or> runonce_process_vibration_data scenario_data scenario_config = Some (Inr [scenario_result])"
    using scenario_run by simp
  have m: "scenario_result \<in> set [scenario_result]" by simp
  from C2_conservation [OF h m] h m show ?thesis by simp
qed

text \<open>
  C3: value extraction is claimed never to raise. It raises \<^verbatim>\<open>TypeError\<close>,
  which the outer handler does not catch, for a payload that is \<^verbatim>\<open>None\<close> and
  for a text that decodes to a single object (iterating a dict yields its keys,
  and a string cannot be subscripted with \<^verbatim>\<open>"sensor_type"\<close>).
\<close>

theorem C3_extract_raises:
  "extract_sensor_value (Obj PNone) ''sZ'' = Inl TypeError
   \<and> extract_sensor_value single_object_payload ''sZ'' = Inl TypeError"
  by code_simp

text \<open>
  C4: an absent reading is claimed to increment the OFF-confirmation counter in
  both engines. In \<^verbatim>\<open>integrated_runonce.py\<close> the absent value is \<open>NaN\<close>, both
  comparisons of line 165 are false, and the counter is reset to 0: the cycle
  of \<open>absent_data\<close> is never confirmed OFF there and the day has one cycle,
  where \<^verbatim>\<open>integrated_main.py\<close> counts two.
\<close>

theorem C4_runonce_absent_resets_counter:
  "off_counter_update (runonce_off_reading absent_config) (to_float64 None) 1 = 0
   \<and> map cycle_count (results_of (runonce_process_vibration_data absent_data absent_config)) = [1]
   \<and> map cycle_count (results_of (process_vibration_data absent_data SZ absent_config)) = [2]"
  by code_simp

text \<open>
  C5: in the ON-time loop over a day sorted by time, an ON reading at time t
  at the scan pointer opens the half-open window [t, t + window); with more
  than one reading in the window, min(max time - min time in the window, window
  length) is added and the pointer moves by the number of readings in the
  window, which takes it past every reading in the window; with exactly one
  reading in the window nothing is added and the pointer moves by one; an OFF
  reading moves the pointer by one and adds nothing.
\<close>

theorem C5_window_aggregation:
  assumes "sorted (map time grp)" and "i < length grp"
  shows "let wd = window_data grp (time (grp ! i)) (time (grp ! i) + wdelta) in
     set wd = {r \<in> set grp. time (grp ! i) \<le> time r \<and> time r < time (grp ! i) + wdelta}
     \<and> on_time_loop wdelta grp (i, tot)
         = on_time_loop wdelta grp (on_time_step wdelta grp (i, tot))
     \<and> (ON (grp ! i) \<and> length wd > 1 \<longrightarrow>
          on_time_step wdelta grp (i, tot)
            = (i + length wd,
               tot + min (Max (set (map time wd)) - Min (set (map time wd))) wdelta)
          \<and> (\<forall>k < length grp.
                time (grp ! i) \<le> time (grp ! k) \<and> time (grp ! k) < time (grp ! i) + wdelta
                \<longrightarrow> k < i + length wd))
     \<and> (ON (grp ! i) \<and> length wd = 1 \<longrightarrow> on_time_step wdelta grp (i, tot) = (i + 1, tot))
     \<and> (\<not> ON (grp ! i) \<longrightarrow> on_time_step wdelta grp (i, tot) = (i + 1, tot))"
proof -
  let ?wd = "window_data grp (time (grp ! i)) (time (grp ! i) + wdelta)"
  have c1: "set ?wd = {r \<in> set grp. time (grp ! i) \<le> time r \<and> time r < time (grp ! i) + wdelta}"
    by (rule window_data_set)
  have c2: "on_time_loop wdelta grp (i, tot)
         = on_time_loop wdelta grp (on_time_step wdelta grp (i, tot))"
    using assms(2) by (subst on_time_loop.simps) simp
  have c3: "ON (grp ! i) \<and> length ?wd > 1 \<longrightarrow>
          on_time_step wdelta grp (i, tot)
            = (i + length ?wd,
               tot + min (Max (set (map time ?wd)) - Min (set (map time ?wd))) wdelta)"
    by (simp add: on_time_step_def Let_def)
  have c4: "\<forall>k < length grp.
                time (grp ! i) \<le> time (grp ! k) \<and> time (grp ! k) < time (grp ! i) + wdelta
                \<longrightarrow> k < i + length ?wd"
    using window_index_bound [OF assms] by blast
  have c5: "ON (grp ! i) \<and> length ?wd = 1 \<longrightarrow> on_time_step wdelta grp (i, tot) = (i + 1, tot)"
    by (simp add: on_time_step_def Let_def)
  have c6: "\<not> ON (grp ! i) \<longrightarrow> on_time_step wdelta grp (i, tot) = (i + 1, tot)"
    by (simp add: on_time_step_def)
  show ?thesis
    unfolding Let_def by (intro conjI impI c1 c2 c4) (use c3 c5 c6 in blast)+
qed

text \<open>The scenario's day satisfies the hypotheses of C5 at its rows 1 and 0.\<close>

theorem C5_window_aggregation_witness:
  "sorted (map time scenario_group) \<and> 1 < length scenario_group
   \<and> ON (scenario_group ! 1)
   \<and> length (window_data scenario_group (time (scenario_group ! 1))
               (time (scenario_group ! 1) + 900)) = 2
   \<and> on_time_step 900 scenario_group (1, 0) = (3, 180)
   \<and> \<not> ON (scenario_group ! 0)
   \<and> on_time_step 900 scenario_group (0, 0) = (1, 0)"
proof -
  have h1: "sorted (map time scenario_group)" by (simp add: scenario_group_def)
  have h2: "1 < length scenario_group" "0 < length scenario_group"
    by (simp_all add: scenario_group_def)
  have on1: "ON (scenario_group ! 1)" "\<not> ON (scenario_group ! 0)"
    by (simp_all add: scenario_group_def)
  have wd: "window_data scenario_group (time (scenario_group ! 1)) (time (scenario_group ! 1) + 900)
              = [scenario_group ! 1, scenario_group ! 2]"
    by (simp add: scenario_group_def window_data_def)
  have s1: "on_time_step 900 scenario_group (1, 0) = (3, 180)"
    using C5_window_aggregation [OF h1 h2(1), of 900 0] on1(1) wd
    by (simp add: Let_def scenario_group_def)
  have s0: "on_time_step 900 scenario_group (0, 0) = (1, 0)"
    using C5_window_aggregation [OF h1 h2(2), of 900 0] on1(2)
    by (simp add: Let_def)
  from h1 h2 on1 wd s1 s0 show ?thesis by simp
qed



text \<open>
  C7: in both engines the ON flag of a row is (value > positive_threshold) or
  (value < negative_threshold) on the cleaned value of the sensor column, with
  strict comparisons; with negative_threshold \<le> positive_threshold (the
  threshold configuration has negative_threshold < 0 < positive_threshold) a
  value equal to either threshold is classified OFF.
\<close>

theorem C7_classification:
  assumes "negative_threshold cfg \<le> positive_threshold cfg"
  shows "(\<forall>r \<in> set (main_frame data sensor_column cfg col).
            \<exists>v. value r = Some v
              \<and> ON r = (f_gt v (positive_threshold cfg) \<or> f_lt v (negative_threshold cfg)))
       \<and> (\<forall>r \<in> set (runonce_frame data cfg col).
            ON r = (f_gt (value r) (positive_threshold cfg)
                    \<or> f_lt (value r) (negative_threshold cfg)))
       \<and> classify cfg (Fin x) = (x > positive_threshold cfg \<or> x < negative_threshold cfg)
       \<and> \<not> classify cfg (Fin (positive_threshold cfg))
       \<and> \<not> classify cfg (Fin (negative_threshold cfg))"
  using assms by (auto simp: main_frame_def runonce_frame_def classify_def Let_def)

text \<open>The scenario configuration satisfies the hypothesis of C7.\<close>

theorem C7_classification_witness:
  "negative_threshold scenario_config \<le> positive_threshold scenario_config
   \<and> classify scenario_config (Fin 0.5)
   \<and> \<not> classify scenario_config (Fin 0.1)
   \<and> \<not> classify scenario_config (Fin (positive_threshold scenario_config))
   \<and> \<not> classify scenario_config (Fin (negative_threshold scenario_config))"
proof -
  have h: "negative_threshold scenario_config \<le> positive_threshold scenario_config"
    by (simp add: scenario_config_def)
  have v: "positive_threshold scenario_config = 0.41" "negative_threshold scenario_config = - 0.41"
    by (simp_all add: scenario_config_def)
  from C7_classification [OF h, of scenario_data SZ "[]" "0.5"]
  have a: "classify scenario_config (Fin 0.5)" unfolding v by simp
  from C7_classification [OF h, of scenario_data SZ "[]" "0.1"]
  have b: "\<not> classify scenario_config (Fin 0.1)" unfolding v by simp
  from C7_classification [OF h, of scenario_data SZ "[]" 0] h a b
  show ?thesis by blast
qed

text \<open>
  C8: the two engines are claimed to give identical results for the channel
  \<^verbatim>\<open>sZ\<close>. On \<open>drift_data\<close> they do not: the absent reading ends the first
  cycle in \<^verbatim>\<open>integrated_main.py\<close> and does not in \<^verbatim>\<open>integrated_runonce.py\<close>.
\<close>

theorem C8_engines_differ:
  "process_vibration_data drift_data SZ drift_config =
     Some (Inr [\<lparr>date = 0, on_hours = 0, on_minutes = 2, off_hours = 23, off_minutes = 58,
                 total_on_seconds = 120, total_off_seconds = 86280, cycle_count = 2\<rparr>])
   \<and> runonce_process_vibration_data drift_data drift_config =
     Some (Inr [\<lparr>date = 0, on_hours = 0, on_minutes = 2, off_hours = 23, off_minutes = 58,
                 total_on_seconds = 120, total_off_seconds = 86280, cycle_count = 1\<rparr>])"
  by code_simp

text \<open>
  C9: the stored decimal hours are the whole minutes of on_seconds
  (\<open>\<lfloor>on_seconds / 60\<rfloor>\<close>, split into hours and minutes) divided by 60, so at
  least 0 and less than 60 seconds of the computed ON time are dropped.
\<close>

theorem C9_op_hours_truncation:
  assumes "process_vibration_data data sensor_column cfg = Some (Inr results)
           \<or> runonce_process_vibration_data data cfg = Some (Inr results)"
    and "r \<in> set results"
  shows "on_hours r = \<lfloor>total_on_seconds r / 60\<rfloor> div 60
         \<and> on_minutes r = \<lfloor>total_on_seconds r / 60\<rfloor> mod 60
         \<and> on_hours_decimal r = real_of_int \<lfloor>total_on_seconds r / 60\<rfloor> / 60
         \<and> 0 \<le> total_on_seconds r - 3600 * on_hours_decimal r
         \<and> total_on_seconds r - 3600 * on_hours_decimal r < 60"
proof -
  note hm = engine_result_fields(2,3) [OF assms]
  let ?x = "total_on_seconds r"
  have dec: "on_hours_decimal r = real_of_int \<lfloor>?x / 60\<rfloor> / 60"
    unfolding on_hours_decimal_def hm by (rule hours_minutes_decimal)
  have fl: "real_of_int \<lfloor>?x / 60\<rfloor> \<le> ?x / 60" "?x / 60 < real_of_int \<lfloor>?x / 60\<rfloor> + 1"
    by linarith+
  have d60: "3600 * on_hours_decimal r = 60 * real_of_int \<lfloor>?x / 60\<rfloor>"
    using dec by simp
  have "0 \<le> ?x - 3600 * on_hours_decimal r" "?x - 3600 * on_hours_decimal r < 60"
    unfolding d60 using fl by linarith+
  with hm dec show ?thesis by (simp add: hours_minutes_def)
qed

text \<open>The day record of the scenario satisfies the hypotheses of C9.\<close>

theorem C9_op_hours_truncation_witness:
  "(process_vibration_data scenario_data SZ scenario_config = Some (Inr [scenario_result])
    \<or> runonce_process_vibration_data scenario_data scenario_config = Some (Inr [scenario_result]))
   \<and> scenario_result \<in> set [scenario_result]
   \<and> on_hours scenario_result = \<lfloor>total_on_seconds scenario_result / 60\<rfloor> div 60
   \<and> on_minutes scenario_result = \<lfloor>total_on_seconds scenario_result / 60\<rfloor> mod 60
   \<and> on_hours_decimal scenario_result = real_of_int \<lfloor>total_on_seconds scenario_result / 60\<rfloor> / 60
   \<and> 0 \<le> total_on_seconds scenario_result - 3600 * on_hours_decimal scenario_result
   \<and> total_on_seconds scenario_result - 3600 * on_hours_decimal scenario_result < 60"
proof -
  have h: "process_vibration_data scenario_data SZ scenario_config = Some (Inr [scenario_result])
    \<or> runonce_process_vibration_data scenario_data scenario_config = Some (Inr [scenario_result])"
    using scenario_run by simp
  have m: "scenario_result \<in> set [scenario_result]" by simp
  from C9_op_hours_truncation [OF h m] h m show ?thesis by simp
qed

text \<open>
  C10: for a day sorted by time whose readings all lie in one calendar day,
  the accumulated on_seconds, when the loop returns, is at least 0 and at most
  86400, so off_seconds is not negative; and with a positive window size the
  loop does return.
\<close>

theorem C10_on_seconds_bounds:
  assumes "sorted (map time grp)" and "\<forall>r \<in> set grp. date_of (time r) = d"
  shows "(total_on_time cfg grp = Some on_secs
            \<longrightarrow> 0 \<le> on_secs \<and> on_secs \<le> 86400 \<and> 0 \<le> total_seconds_in_day - on_secs)
       \<and> (0 < window_size cfg \<longrightarrow> (\<exists>s. total_on_time cfg grp = Some s))"
proof -
  have "0 < window_size cfg \<Longrightarrow> \<exists>s. total_on_time cfg grp = Some s"
    using on_time_loop_terminates [of "window_delta cfg" grp 0 0]
    by (simp add: total_on_time_def window_delta_def)
  then show ?thesis
    using total_on_time_bounds [OF assms, of cfg on_secs]
    by (auto simp: total_seconds_in_day_def)
qed

text \<open>The scenario's day satisfies the hypotheses of C10.\<close>

theorem C10_on_seconds_bounds_witness:
  "sorted (map time scenario_group)
   \<and> list_all (\<lambda>r. date_of (time r) = 0) scenario_group
   \<and> total_on_time scenario_config scenario_group = Some 180
   \<and> 0 < window_size scenario_config
   \<and> (0::real) \<le> 180 \<and> (180::real) \<le> 86400 \<and> 0 \<le> total_seconds_in_day - 180"
proof -
  have h1: "sorted (map time scenario_group)" by (simp add: scenario_group_def)
  have h2: "\<forall>r \<in> set scenario_group. date_of (time r) = 0"
    by (simp add: scenario_group_def date_of_def)
  have h3: "0 < window_size scenario_config" by (simp add: scenario_config_def)
  from C10_on_seconds_bounds [OF h1 h2, of scenario_config 180] scenario_group_on_time h1 h2 h3
  show ?thesis by (simp add: list_all_iff)
qed

end
